theory Spec2Isabelle
  imports Main "HOL-Library.Sublist" "HOL-Library.AList"
begin

section \<open>JavaScript values\<close>

text \<open>
  A JavaScript string is a sequence of UTF-16 code units; \<open>length\<close>, \<open>substring\<close>,
  \<open>trim\<close> and \<open>replace\<close> all count code units. A string is therefore a list of
  code units, each a natural number. \<open>lit\<close> embeds an ASCII literal of the source;
  literals with Chinese text are written as their code units.
\<close>

type_synonym jstring = "nat list"

definition lit :: "string \<Rightarrow> jstring" where
  "lit s = map of_char s"

text \<open>
  The primitive values that the utility functions receive as arguments. Numbers are
  integers (fractions, NaN and the infinities are outside the model).
\<close>

datatype jsval = Undefined | Null | Bool bool | Num int | Str jstring

text \<open>ToBoolean, as applied by \<open>!x\<close>, \<open>x || y\<close> and \<open>x ? a : b\<close>.\<close>

fun truthy :: "jsval \<Rightarrow> bool" where
  "truthy Undefined = False"
| "truthy Null = False"
| "truthy (Bool b) = b"
| "truthy (Num n) = (n \<noteq> 0)"
| "truthy (Str s) = (s \<noteq> [])"

text \<open>
  \<open>v.length\<close> on a truthy primitive: the number of code units of a string, and
  \<open>undefined\<close> (here \<open>None\<close>) on a number or a boolean.
\<close>

fun length_prop :: "jsval \<Rightarrow> nat option" where
  "length_prop (Str s) = Some (length s)"
| "length_prop v = None"

section \<open>maskPhone\<close>

text \<open>
  \<^verbatim>\<open>if (!phone || phone.length !== 11) return phone;\<close>
  \<^verbatim>\<open>return phone.substring(0, 3) + '****' + phone.substring(7);\<close>
  The second line is reached only by a string of eleven code units.
\<close>

fun maskPhone :: "jsval \<Rightarrow> jsval" where
  "maskPhone phone =
     (if \<not> truthy phone then phone
      else if length_prop phone \<noteq> Some 11 then phone
      else (case phone of
              Str p \<Rightarrow> Str (take 3 p @ lit ''****'' @ drop 7 p)
            | v \<Rightarrow> v))"

section \<open>String operations of the platform\<close>

text \<open>
  White space and line terminators, as removed by \<open>String.prototype.trim\<close>: TAB, LF,
  VT, FF, CR, SP, NBSP, the Unicode space separators and the byte order mark.
\<close>

definition js_space :: "nat \<Rightarrow> bool" where
  "js_space c \<longleftrightarrow>
     c \<in> {9, 10, 11, 12, 13, 32, 160, 5760, 8232, 8233, 8239, 8287, 12288, 65279}
     \<or> (8192 \<le> c \<and> c \<le> 8202)"

definition trim :: "jstring \<Rightarrow> jstring" where
  "trim s = rev (dropWhile js_space (rev (dropWhile js_space s)))"

text \<open>
  \<open>s.replace(pat, rep)\<close> with a string pattern: the first occurrence of \<open>pat\<close> is
  replaced. The replacement text is inserted as it is, which is what JavaScript does
  when it holds no dollar sign; the calls of \<open>formatDate\<close> pass digits and at most a
  minus sign.
\<close>

fun replace_first :: "'a list \<Rightarrow> 'a list \<Rightarrow> 'a list \<Rightarrow> 'a list" where
  "replace_first pat rep [] = (if pat = [] then rep else [])"
| "replace_first pat rep (c # cs) =
     (if prefix pat (c # cs) then rep @ drop (length pat) (c # cs)
      else c # replace_first pat rep cs)"

text \<open>Number to string, for integers: decimal digits, with a minus sign when negative.\<close>

fun dec :: "nat \<Rightarrow> jstring" where
  "dec n = (if n < 10 then [48 + n] else dec (n div 10) @ [48 + n mod 10])"

declare dec.simps [simp del]

definition show_int :: "int \<Rightarrow> jstring" where
  "show_int i = (if i < 0 then 45 # dec (nat (- i)) else dec (nat i))"

section \<open>The admin page script\<close>

text \<open>
  A script is checked as a whole before any of it runs. One of the checks: no name is
  declared twice by \<open>let\<close> or \<open>const\<close> in one block, and the clauses of a \<open>switch\<close>
  statement share a single block. A script that fails the check is rejected with a
  SyntaxError: none of its statements runs, and none of its variables and functions comes
  to exist.

  The blocks of the admin script that declare names with \<open>let\<close> or \<open>const\<close>, in the
  order of the source, each with its names in the order of their declarations.
\<close>

definition admin_blocks :: "(string \<times> string list) list" where
  "admin_blocks =
     [(''script'', [''currentDevice'', ''currentEditType'', ''longPressTimer'', ''users'']),
      (''loadUsers: try'', [''response'']),
      (''showBorrowModal'', [''device'', ''editModal'', ''editTitle'', ''editBody'']),
      (''showReturnModal'', [''device'', ''editModal'', ''editTitle'', ''editBody'']),
      (''showTransferModal'', [''device'', ''editModal'', ''editTitle'', ''editBody'']),
      (''showEditModal'', [''device'', ''editModal'', ''editTitle'', ''editBody'']),
      (''showEditFieldModal'',
         [''device'', ''editModal'', ''editTitle'', ''editBody'', ''fieldLabels'', ''fieldContent'']),
      (''confirmEdit: try'', [''result'', ''response'']),
      (''confirmEdit: switch'',
         [''user'', ''days'', ''remarks'', ''transferUser'', ''transferRemarks'', ''model'',
          ''cabinet'', ''remarks'', ''fieldValue'', ''fieldName'']),
      (''showToast'', [''toast''])]"

definition admin_functions :: "string list" where
  "admin_functions =
     [''loadUsers'', ''showBorrowModal'', ''showReturnModal'', ''showTransferModal'',
      ''showEditModal'', ''showEditFieldModal'', ''closeEditModal'', ''confirmEdit'',
      ''showToast'']"

definition script_accepted :: bool where
  "script_accepted \<longleftrightarrow> list_all (\<lambda>(place, names). distinct names) admin_blocks"

text \<open>
  What the script would act on: whether \<open>editModal\<close> carries the class \<open>show\<close>, the
  inputs inside \<open>editModalBody\<close> (element id and current value), the texts shown as
  toast, the requests sent (method and address) and the number of list reloads asked for.
\<close>

record request =
  http_method :: jstring
  url :: jstring

record page =
  modalShown :: bool
  form :: "(jstring \<times> jstring) list"
  toasts :: "jstring list"
  requests :: "request list"
  reloads :: nat

text \<open>How a call ends: it returns, or an exception leaves it; either way with a state.\<close>

datatype 'a completion = Normal 'a | Abrupt 'a

fun state_of :: "'a completion \<Rightarrow> 'a" where
  "state_of (Normal s) = s"
| "state_of (Abrupt s) = s"

text \<open>
  A call \<open>name(...)\<close> made by the page, with \<open>body\<close> for what the function of that name
  does once it runs: when the script was rejected, or declares no such function, the
  name is not defined and the call raises a ReferenceError, the page being as before.
\<close>

definition call_global :: "string \<Rightarrow> (page \<Rightarrow> page completion) \<Rightarrow> page \<Rightarrow> page completion" where
  "call_global name body st =
     (if script_accepted \<and> name \<in> set admin_functions then body st else Abrupt st)"

text \<open>
  Sample data: the page with the modal closed, and the page showing the borrow form with
  a blank borrower.
\<close>

definition closed_page :: page where
  "closed_page = \<lparr>modalShown = False, form = [], toasts = [], requests = [], reloads = 0\<rparr>"

definition borrow_form_page :: page where
  "borrow_form_page =
     \<lparr>modalShown = True,
      form = [(lit ''editBorrowUser'', lit ''  ''), (lit ''editBorrowDays'', lit ''1''),
              (lit ''editBorrowRemarks'', [])],
      toasts = [], requests = [], reloads = 0\<rparr>"

section \<open>The storage wrapper\<close>
















section \<open>Form validation\<close>

text \<open>
  \<open>formData\<close>, \<open>rules\<close> and \<open>validators\<close> are plain objects: besides its own properties
  each inherits the members of \<open>Object.prototype\<close>. Own properties of \<open>formData\<close> hold
  primitive values. What the platform contributes is taken as given: the text of a number
  (decimal digits for an integer below \<open>10^21\<close> in size), and for a name whether
  \<open>Object.prototype\<close> has a member of that name and, if so, the \<open>length\<close> of that member
  (the inner \<open>None\<close>: it has no \<open>length\<close>).
\<close>

record platform =
  number_text :: "int \<Rightarrow> jstring"
  inherited :: "jstring \<Rightarrow> int option option"

text \<open>
  \<open>formData[field]\<close>: the value of the own property, else the inherited member of that
  name (a function, or the prototype object for \<open>__proto__\<close>), else \<open>undefined\<close>.
\<close>

datatype form_value = Own jsval | Inherited jstring

definition field_value :: "platform \<Rightarrow> (jstring \<times> jsval) list \<Rightarrow> jstring \<Rightarrow> form_value" where
  "field_value P formData field =
     (case map_of formData field of
        Some v \<Rightarrow> Own v
      | None \<Rightarrow> (case inherited P field of
                   Some l \<Rightarrow> Inherited field
                 | None \<Rightarrow> Own Undefined))"

text \<open>ToString of a primitive value.\<close>

fun to_string :: "platform \<Rightarrow> jsval \<Rightarrow> jstring" where
  "to_string P Undefined = lit ''undefined''"
| "to_string P Null = lit ''null''"
| "to_string P (Bool b) = (if b then lit ''true'' else lit ''false'')"
| "to_string P (Num n) = number_text P n"
| "to_string P (Str s) = s"

definition is_digit :: "nat \<Rightarrow> bool" where
  "is_digit c \<longleftrightarrow> 48 \<le> c \<and> c \<le> 57"

text \<open>
  The pattern of \<open>phoneRegex\<close>: the digit 1, a digit from 3 to 9, then nine digits,
  anchored at both ends.
\<close>

fun phoneRegex :: "jstring \<Rightarrow> bool" where
  "phoneRegex (a # b # rest) \<longleftrightarrow>
     a = 49 \<and> 51 \<le> b \<and> b \<le> 57 \<and> length rest = 9 \<and> list_all is_digit rest"
| "phoneRegex s \<longleftrightarrow> False"

text \<open>
  \<open>phoneRegex.test(value)\<close> tests the text of the value. The text of an inherited member
  is that of a built-in function, or \<open>[object Object]\<close>: it begins with a letter or a
  bracket and never matches.
\<close>

fun phone_test :: "platform \<Rightarrow> form_value \<Rightarrow> bool" where
  "phone_test P (Own v) = phoneRegex (to_string P v)"
| "phone_test P (Inherited m) = False"

text \<open>
  \<open>value.length\<close>: a TypeError (the outer \<open>None\<close>) on \<open>undefined\<close> and \<open>null\<close>, the
  number of code units of a string, \<open>undefined\<close> (the inner \<open>None\<close>) on a number or a
  boolean, and the \<open>length\<close> of an inherited member.
\<close>

fun value_length :: "platform \<Rightarrow> form_value \<Rightarrow> int option option" where
  "value_length P (Own Undefined) = None"
| "value_length P (Own Null) = None"
| "value_length P (Own (Str s)) = Some (Some (int (length s)))"
| "value_length P (Own v) = Some None"
| "value_length P (Inherited m) = (case inherited P m of None \<Rightarrow> Some None | Some l \<Rightarrow> Some l)"

fun truthy_value :: "form_value \<Rightarrow> bool" where
  "truthy_value (Own v) = truthy v"
| "truthy_value (Inherited m) = True"

definition msg_required :: jstring where
  "msg_required = [0x6b64, 0x9879, 0x4e3a, 0x5fc5, 0x586b]"

definition msg_phone :: jstring where
  "msg_phone = [0x8bf7, 0x8f93, 0x5165, 0x6b63, 0x786e, 0x7684, 0x624b, 0x673a, 0x53f7]"

definition msg_minLength :: "platform \<Rightarrow> int \<Rightarrow> jstring" where
  "msg_minLength P n = [0x6700, 0x5c11, 0x9700, 0x8981] @ number_text P n @ [0x4e2a, 0x5b57, 0x7b26]"

definition msg_maxLength :: "platform \<Rightarrow> int \<Rightarrow> jstring" where
  "msg_maxLength P n = [0x6700, 0x591a] @ number_text P n @ [0x4e2a, 0x5b57, 0x7b26]"

text \<open>
  The four validators. Each returns \<open>true\<close> or its message; \<open>None\<close> is a TypeError.
  A message argument is a string or absent (\<open>None\<close>), a length argument is an integer.
  \<open>value.trim\<close> exists on strings only, so \<open>required\<close> raises on any other truthy
  value. A comparison with an undefined \<open>length\<close> is false.
\<close>

definition validators_required :: "form_value \<Rightarrow> jstring option \<Rightarrow> jsval option" where
  "validators_required value message =
     (let msg = (case message of None \<Rightarrow> msg_required | Some m \<Rightarrow> m) in
      if \<not> truthy_value value then Some (Str msg)
      else (case value of
              Own (Str s) \<Rightarrow> if trim s = [] then Some (Str msg) else Some (Bool True)
            | _ \<Rightarrow> None))"

definition validators_phone :: "platform \<Rightarrow> form_value \<Rightarrow> jstring option \<Rightarrow> jsval option" where
  "validators_phone P value message =
     (let msg = (case message of None \<Rightarrow> msg_phone | Some m \<Rightarrow> m) in
      if \<not> phone_test P value then Some (Str msg) else Some (Bool True))"

definition validators_minLength ::
  "platform \<Rightarrow> form_value \<Rightarrow> int \<Rightarrow> jstring option \<Rightarrow> jsval option" where
  "validators_minLength P value n message =
     (let msg = (case message of None \<Rightarrow> msg_minLength P n
                 | Some m \<Rightarrow> if m = [] then msg_minLength P n else m) in
      case value_length P value of
        None \<Rightarrow> None
      | Some None \<Rightarrow> Some (Bool True)
      | Some (Some l) \<Rightarrow> if l < n then Some (Str msg) else Some (Bool True))"

definition validators_maxLength ::
  "platform \<Rightarrow> form_value \<Rightarrow> int \<Rightarrow> jstring option \<Rightarrow> jsval option" where
  "validators_maxLength P value n message =
     (let msg = (case message of None \<Rightarrow> msg_maxLength P n
                 | Some m \<Rightarrow> if m = [] then msg_maxLength P n else m) in
      case value_length P value of
        None \<Rightarrow> None
      | Some None \<Rightarrow> Some (Bool True)
      | Some (Some l) \<Rightarrow> if n < l then Some (Str msg) else Some (Bool True))"

text \<open>
  A rule: a function with a primitive result (it may raise: \<open>None\<close>) and no effect
  on the form, the rules or the validators, a string (the message of \<open>required\<close>),
  an array that names one of the four validators and gives its arguments, an array
  whose first element names no member of \<open>validators\<close> at all,
  neither one of the four nor one inherited from \<open>Object.prototype\<close>
  (\<open>Rule_unknown\<close>), or a value that is neither function, string nor array
  (\<open>Rule_other\<close>). An array that names an inherited member is not among the rules
  modelled.
\<close>

datatype rule =
    Rule_fun "form_value \<Rightarrow> jsval option"
  | Rule_msg jstring
  | Rule_required "jstring option"
  | Rule_phone "jstring option"
  | Rule_minLength int "jstring option"
  | Rule_maxLength int "jstring option"
  | Rule_unknown
  | Rule_other

text \<open>
  The body of the inner loop up to the test of \<open>result\<close>: calling \<open>undefined\<close> raises,
  and a rule of no known kind leaves \<open>result\<close> undefined.
\<close>

fun eval_rule :: "platform \<Rightarrow> rule \<Rightarrow> form_value \<Rightarrow> jsval option" where
  "eval_rule P (Rule_fun f) value = f value"
| "eval_rule P (Rule_msg m) value = validators_required value (Some m)"
| "eval_rule P (Rule_required message) value = validators_required value message"
| "eval_rule P (Rule_phone message) value = validators_phone P value message"
| "eval_rule P (Rule_minLength n message) value = validators_minLength P value n message"
| "eval_rule P (Rule_maxLength n message) value = validators_maxLength P value n message"
| "eval_rule P Rule_unknown value = None"
| "eval_rule P Rule_other value = Some Undefined"

text \<open>
  The inner loop over the rules of one field: \<open>Some None\<close> when every rule gave
  \<open>true\<close>, \<open>Some (Some e)\<close> at the first result \<open>e\<close> that is not \<open>true\<close> (the
  \<open>break\<close>), \<open>None\<close> when a rule raised before that.
\<close>

fun check_rules :: "platform \<Rightarrow> form_value \<Rightarrow> rule list \<Rightarrow> jsval option option" where
  "check_rules P value [] = Some None"
| "check_rules P value (r # rs) =
     (case eval_rule P r value of
        None \<Rightarrow> None
      | Some result \<Rightarrow> if result \<noteq> Bool True then Some (Some result) else check_rules P value rs)"

text \<open>
  \<open>errors[field] = result\<close> with a primitive result: a new or changed own property,
  except for the name \<open>__proto__\<close>, whose inherited setter takes the value and adds no
  property.
\<close>

definition record_error ::
  "jstring \<Rightarrow> jsval \<Rightarrow> (jstring \<times> jsval) list \<Rightarrow> (jstring \<times> jsval) list" where
  "record_error field e errs =
     (if field = lit ''__proto__'' then errs else AList.update field e errs)"

text \<open>
  The outer loop over the properties of \<open>rules\<close> that \<open>for ... in\<close> enumerates (the
  own properties of a plain object, each name once), in their order, with the \<open>errors\<close>
  object built so far.
\<close>

fun validate_fields ::
  "platform \<Rightarrow> (jstring \<times> jsval) list \<Rightarrow> (jstring \<times> rule list) list
     \<Rightarrow> (jstring \<times> jsval) list \<Rightarrow> (jstring \<times> jsval) list option" where
  "validate_fields P formData [] errs = Some errs"
| "validate_fields P formData ((field, fieldRules) # rest) errs =
     (case check_rules P (field_value P formData field) fieldRules of
        None \<Rightarrow> None
      | Some None \<Rightarrow> validate_fields P formData rest errs
      | Some (Some e) \<Rightarrow> validate_fields P formData rest (record_error field e errs))"

record validation =
  isValid :: bool
  errors :: "(jstring \<times> jsval) list"

text \<open>
  \<open>validateForm\<close>: \<open>None\<close> when a rule raised (nothing catches it), otherwise the result
  object, with \<open>isValid\<close> telling whether \<open>errors\<close> has no own property.
\<close>

definition validateForm ::
  "platform \<Rightarrow> (jstring \<times> jsval) list \<Rightarrow> (jstring \<times> rule list) list \<Rightarrow> validation option" where
  "validateForm P formData rules =
     (case validate_fields P formData rules [] of
        None \<Rightarrow> None
      | Some errs \<Rightarrow> Some \<lparr>isValid = (length errs = 0), errors = errs\<rparr>)"

text \<open>
  Sample data: a platform as far as the samples need it (decimal number texts; the
  members of \<open>Object.prototype\<close> with their \<open>length\<close>), a form with a name and a phone
  number, and rules for both.
\<close>

definition browser :: platform where
  "browser =
     \<lparr>number_text = show_int,
      inherited = map_of
        [(lit ''constructor'', Some 1), (lit ''__defineGetter__'', Some 2),
         (lit ''__defineSetter__'', Some 2), (lit ''hasOwnProperty'', Some 1),
         (lit ''__lookupGetter__'', Some 1), (lit ''__lookupSetter__'', Some 1),
         (lit ''isPrototypeOf'', Some 1), (lit ''propertyIsEnumerable'', Some 1),
         (lit ''toString'', Some 0), (lit ''valueOf'', Some 0), (lit ''__proto__'', None),
         (lit ''toLocaleString'', Some 0)]\<rparr>"

definition sample_form :: "(jstring \<times> jsval) list" where
  "sample_form = [(lit ''name'', Str (lit ''Li'')), (lit ''phone'', Str (lit ''12345''))]"

definition sample_rules :: "(jstring \<times> rule list) list" where
  "sample_rules =
     [(lit ''name'', [Rule_msg (lit ''name required''), Rule_minLength 2 None]),
      (lit ''phone'', [Rule_required None, Rule_phone (Some (lit ''bad phone'')), Rule_unknown])]"

section \<open>Timers, debounce and throttle\<close>

text \<open>
  The timers of the platform in logical time: the pending timers (handle, due time,
  callback), the next handle and the current time. \<open>setTimeout\<close> adds a timer due
  after the delay, \<open>clearTimeout\<close> removes the timer of a handle (and does nothing for
  \<open>undefined\<close>, a fired or a cleared handle). A pending timer runs at a turn of the event
  loop whose time is not before its due time; it never runs early, and it may run late.
\<close>

record 'c timer_table =
  pending :: "(nat \<times> nat \<times> 'c) list"
  next_handle :: nat
  clock :: nat

definition setTimeout :: "'c \<Rightarrow> nat \<Rightarrow> 'c timer_table \<Rightarrow> nat \<times> 'c timer_table" where
  "setTimeout cb delay tt =
     (next_handle tt,
      tt\<lparr>pending := pending tt @ [(next_handle tt, clock tt + delay, cb)],
         next_handle := Suc (next_handle tt)\<rparr>)"

definition remove_timer :: "nat \<Rightarrow> 'c timer_table \<Rightarrow> 'c timer_table" where
  "remove_timer h tt = tt\<lparr>pending := filter (\<lambda>(i, due, cb). i \<noteq> h) (pending tt)\<rparr>"

definition clearTimeout :: "nat option \<Rightarrow> 'c timer_table \<Rightarrow> 'c timer_table" where
  "clearTimeout handle tt = (case handle of None \<Rightarrow> tt | Some h \<Rightarrow> remove_timer h tt)"

definition due_timer :: "'c timer_table \<Rightarrow> (nat \<times> nat \<times> 'c) option" where
  "due_timer tt = find (\<lambda>(i, due, cb). due \<le> clock tt) (pending tt)"

text \<open>
  What happens to a wrapper: it is called at a time with its arguments, or the event
  loop takes a turn at a time and runs one due timer, if there is one.
\<close>

datatype 'a event = Call nat 'a | Turn nat


text \<open>
  What the wrapped function does when it is called with given arguments, as far as it
  matters to the wrappers: it returns, it throws, or it calls the wrapper once with some
  arguments and then returns (an exception of that inner call leaves it as well).
\<close>

datatype 'a behaviour = Returns | Throws | Calls_wrapper 'a

text \<open>
  The closure made by \<open>debounce(func, wait)\<close>: its variable \<open>timeout\<close>, the timers, and
  two records, of the calls of the wrapper and of the calls of \<open>func\<close> (time and
  arguments). The callback \<open>later\<close> of a timer is given by the arguments it captured.
\<close>

record 'a debounced =
  timeout :: "nat option"
  d_timers :: "'a timer_table"
  d_called :: "(nat \<times> 'a) list"
  d_invoked :: "(nat \<times> 'a) list"

definition debounce :: "'a debounced" where
  "debounce = \<lparr>timeout = None, d_timers = \<lparr>pending = [], next_handle = 1, clock = 0\<rparr>,
               d_called = [], d_invoked = []\<rparr>"

text \<open>The wrapper \<open>executedFunction\<close>: it clears the timer of \<open>timeout\<close> and sets a new one.\<close>

definition executedFunction :: "nat \<Rightarrow> 'a \<Rightarrow> 'a debounced \<Rightarrow> 'a debounced" where
  "executedFunction wait args st =
     (let tt = clearTimeout (timeout st) (d_timers st);
          (h, tt') = setTimeout args wait tt
      in st\<lparr>timeout := Some h, d_timers := tt',
            d_called := d_called st @ [(clock (d_timers st), args)]\<rparr>)"

text \<open>
  The callback \<open>later\<close>, run for a timer that has left the table: it clears the timer
  of \<open>timeout\<close> and calls \<open>func\<close>, which may call the wrapper. An exception of \<open>func\<close>
  ends the callback and changes nothing else.
\<close>

definition later :: "('a \<Rightarrow> 'a behaviour) \<Rightarrow> nat \<Rightarrow> 'a \<Rightarrow> 'a debounced \<Rightarrow> 'a debounced" where
  "later func wait args st =
     (let st1 = st\<lparr>d_timers := clearTimeout (timeout st) (d_timers st),
                    d_invoked := d_invoked st @ [(clock (d_timers st), args)]\<rparr>
      in case func args of
           Returns \<Rightarrow> st1
         | Throws \<Rightarrow> st1
         | Calls_wrapper b \<Rightarrow> executedFunction wait b st1)"

fun debounce_step ::
  "('a \<Rightarrow> 'a behaviour) \<Rightarrow> nat \<Rightarrow> 'a debounced \<Rightarrow> 'a event \<Rightarrow> 'a debounced" where
  "debounce_step func wait st (Call t args) =
     executedFunction wait args (st\<lparr>d_timers := (d_timers st)\<lparr>clock := t\<rparr>\<rparr>)"
| "debounce_step func wait st (Turn t) =
     (let tt = (d_timers st)\<lparr>clock := t\<rparr>
      in case due_timer tt of
           None \<Rightarrow> st\<lparr>d_timers := tt\<rparr>
         | Some (h, due, args) \<Rightarrow> later func wait args (st\<lparr>d_timers := remove_timer h tt\<rparr>))"

definition debounce_run ::
  "('a \<Rightarrow> 'a behaviour) \<Rightarrow> nat \<Rightarrow> 'a event list \<Rightarrow> 'a debounced" where
  "debounce_run func wait es = foldl (debounce_step func wait) debounce es"

text \<open>
  The closure made by \<open>throttle(func, limit)\<close>: its variable \<open>inThrottle\<close> (\<open>undefined\<close>
  at first, which is falsy), the timers (their callback sets \<open>inThrottle\<close> to false),
  and the record of the calls of \<open>func\<close>.
\<close>

record 'a throttled =
  inThrottle :: bool
  t_timers :: "unit timer_table"
  t_invoked :: "(nat \<times> 'a) list"

definition throttle :: "'a throttled" where
  "throttle = \<lparr>inThrottle = False, t_timers = \<lparr>pending = [], next_handle = 1, clock = 0\<rparr>,
               t_invoked = []\<rparr>"

text \<open>The two statements after \<open>func.apply\<close>: set \<open>inThrottle\<close> and a timer.\<close>

definition start_window :: "nat \<Rightarrow> 'a throttled \<Rightarrow> 'a throttled" where
  "start_window limit st =
     st\<lparr>inThrottle := True, t_timers := snd (setTimeout () limit (t_timers st))\<rparr>"

text \<open>
  The wrapper, with the number of nested calls the stack still has room for (a call
  beyond that raises a RangeError). Outside a window it calls \<open>func\<close> first and only
  when that call has returned sets \<open>inThrottle\<close> and the timer: an exception of \<open>func\<close>
  leaves the wrapper before, and a call of the wrapper from \<open>func\<close> finds \<open>inThrottle\<close>
  not yet set.
\<close>

fun throttle_call ::
  "nat \<Rightarrow> ('a \<Rightarrow> 'a behaviour) \<Rightarrow> nat \<Rightarrow> 'a \<Rightarrow> 'a throttled \<Rightarrow> 'a throttled completion" where
  "throttle_call 0 func limit args st = Abrupt st"
| "throttle_call (Suc room) func limit args st =
     (if \<not> inThrottle st
      then (let st1 = st\<lparr>t_invoked := t_invoked st @ [(clock (t_timers st), args)]\<rparr>
            in case func args of
                 Returns \<Rightarrow> Normal (start_window limit st1)
               | Throws \<Rightarrow> Abrupt st1
               | Calls_wrapper b \<Rightarrow>
                   (case throttle_call room func limit b st1 of
                      Normal st2 \<Rightarrow> Normal (start_window limit st2)
                    | Abrupt st2 \<Rightarrow> Abrupt st2))
      else Normal st)"

text \<open>
  An exception that leaves the wrapper goes to its caller; the closure stays as it is
  at that point.
\<close>

fun throttle_step ::
  "nat \<Rightarrow> ('a \<Rightarrow> 'a behaviour) \<Rightarrow> nat \<Rightarrow> 'a throttled \<Rightarrow> 'a event \<Rightarrow> 'a throttled" where
  "throttle_step stack func limit st (Call t args) =
     state_of (throttle_call stack func limit args (st\<lparr>t_timers := (t_timers st)\<lparr>clock := t\<rparr>\<rparr>))"
| "throttle_step stack func limit st (Turn t) =
     (let tt = (t_timers st)\<lparr>clock := t\<rparr>
      in case due_timer tt of
           None \<Rightarrow> st\<lparr>t_timers := tt\<rparr>
         | Some (h, due, cb) \<Rightarrow> st\<lparr>t_timers := remove_timer h tt, inThrottle := False\<rparr>)"

definition throttle_run ::
  "nat \<Rightarrow> ('a \<Rightarrow> 'a behaviour) \<Rightarrow> nat \<Rightarrow> 'a event list \<Rightarrow> 'a throttled" where
  "throttle_run stack func limit es = foldl (throttle_step stack func limit) throttle es"








definition echo_func :: "string \<Rightarrow> string behaviour" where
  "echo_func args = Calls_wrapper args"

section \<open>formatDate\<close>

text \<open>
  What the getters of \<open>new Date(date)\<close> return, in local time (the month counted
  from 0). For a valid date they lie in the ranges of \<open>valid_date\<close>; an invalid date
  (every getter NaN) is outside the model.
\<close>

record local_date =
  getFullYear :: int
  getMonth :: nat
  getDate :: nat
  getHours :: nat
  getMinutes :: nat

definition valid_date :: "local_date \<Rightarrow> bool" where
  "valid_date d \<longleftrightarrow>
     - 271821 \<le> getFullYear d \<and> getFullYear d \<le> 275760 \<and> getMonth d < 12
     \<and> 1 \<le> getDate d \<and> getDate d \<le> 31 \<and> getHours d < 24 \<and> getMinutes d < 60"

text \<open>\<open>String(n).padStart(2, '0')\<close>\<close>

definition padStart2 :: "nat \<Rightarrow> jstring" where
  "padStart2 n = replicate (2 - length (dec n)) 48 @ dec n"

text \<open>
  \<open>formatDate(date, format = 'YYYY-MM-DD')\<close>: five calls of \<open>replace\<close> in a row, each on
  the result of the one before; \<open>None\<close> is an omitted format.
\<close>

definition formatDate :: "local_date \<Rightarrow> jstring option \<Rightarrow> jstring" where
  "formatDate d format =
     (let fmt = (case format of None \<Rightarrow> lit ''YYYY-MM-DD'' | Some f \<Rightarrow> f);
          year = show_int (getFullYear d);
          month = padStart2 (getMonth d + 1);
          day = padStart2 (getDate d);
          hour = padStart2 (getHours d);
          minute = padStart2 (getMinutes d)
      in replace_first (lit ''mm'') minute
           (replace_first (lit ''HH'') hour
              (replace_first (lit ''DD'') day
                 (replace_first (lit ''MM'') month
                    (replace_first (lit ''YYYY'') year fmt)))))"

text \<open>
  The reading of the specification: every token of the table found in the format, from
  left to right, is replaced by its text.
\<close>

fun fill_tokens :: "('a list \<times> 'a list) list \<Rightarrow> 'a list \<Rightarrow> 'a list" where
  "fill_tokens table [] = []"
| "fill_tokens table (c # cs) =
     (case find (\<lambda>(tok, rep). prefix tok (c # cs)) table of
        Some (tok, rep) \<Rightarrow> rep @ fill_tokens table (drop (length tok - 1) cs)
      | None \<Rightarrow> c # fill_tokens table cs)"

definition token_table :: "local_date \<Rightarrow> (jstring \<times> jstring) list" where
  "token_table d =
     [(lit ''YYYY'', show_int (getFullYear d)),
      (lit ''MM'', padStart2 (getMonth d + 1)),
      (lit ''DD'', padStart2 (getDate d)),
      (lit ''HH'', padStart2 (getHours d)),
      (lit ''mm'', padStart2 (getMinutes d))]"

text \<open>The number of places of a string at which a token starts.\<close>

fun occurrences :: "'a list \<Rightarrow> 'a list \<Rightarrow> nat" where
  "occurrences tok [] = 0"
| "occurrences tok (c # cs) = (if prefix tok (c # cs) then 1 else 0) + occurrences tok cs"

text \<open>
  Replacing one token after the other, for tokens given as a letter, its number of
  repetitions and the replacement text.
\<close>

fun replace_each :: "('a \<times> nat \<times> 'a list) list \<Rightarrow> 'a list \<Rightarrow> 'a list" where
  "replace_each [] s = s"
| "replace_each ((l, n, rep) # ts) s = replace_each ts (replace_first (replicate n l) rep s)"

definition table_of :: "('a \<times> nat \<times> 'a list) list \<Rightarrow> ('a list \<times> 'a list) list" where
  "table_of ts = map (\<lambda>(l, n, rep). (replicate n l, rep)) ts"

text \<open>
  Tokens of distinct letters, not empty, with replacement texts that are not empty and
  hold none of the letters.
\<close>

definition letter_tokens :: "('a \<times> nat \<times> 'a list) list \<Rightarrow> bool" where
  "letter_tokens ts \<longleftrightarrow>
     distinct (map fst ts)
     \<and> list_all (\<lambda>(l, n, rep). 0 < n \<and> rep \<noteq> [] \<and> list_all (\<lambda>(l', n', rep'). l' \<notin> set rep) ts) ts"

text \<open>Sample data: the fifth of March 2024, 09:07, and the fifteenth of June 999.\<close>

definition march_5 :: local_date where
  "march_5 = \<lparr>getFullYear = 2024, getMonth = 2, getDate = 5, getHours = 9, getMinutes = 7\<rparr>"

definition june_999 :: local_date where
  "june_999 = \<lparr>getFullYear = 999, getMonth = 5, getDate = 15, getHours = 0, getMinutes = 0\<rparr>"

text \<open>The five tokens of \<open>formatDate\<close>, in the order of its calls of \<open>replace\<close>.\<close>

definition date_letters :: "local_date \<Rightarrow> (nat \<times> nat \<times> jstring) list" where
  "date_letters d =
     [(89, 4, show_int (getFullYear d)),
      (77, 2, padStart2 (getMonth d + 1)),
      (68, 2, padStart2 (getDate d)),
      (72, 2, padStart2 (getHours d)),
      (109, 2, padStart2 (getMinutes d))]"

section \<open>Properties of maskPhone\<close>

lemma lit_eq_iff: "lit a = lit b \<longleftrightarrow> a = b"
  unfolding lit_def by (simp add: inj_map_eq_map inj_on_def)

lemma length_lit: "length (lit s) = length s"
  by (simp add: lit_def)

lemma lit_eq_Nil: "lit s = [] \<longleftrightarrow> s = []"
  by (simp add: lit_def)

lemma lit_append: "lit (a @ b) = lit a @ lit b"
  by (simp add: lit_def)

text \<open>
  C5. A string of eleven code units (in particular eleven digits) comes back with code
  units 4 to 7 replaced by \<open>****\<close>, the first three and the last four kept, and the
  length unchanged. Every value that is not a string of eleven code units (the empty
  string, \<open>null\<close>, \<open>undefined\<close>, a string of another length, a number) comes back
  unchanged.
\<close>

theorem maskPhone_masks_middle:
  "(length p = 11 \<longrightarrow>
      (\<exists>q. maskPhone (Str p) = Str q \<and> length q = 11
         \<and> take 3 q = take 3 p \<and> take 4 (drop 3 q) = lit ''****'' \<and> drop 7 q = drop 7 p))
   \<and> ((\<forall>s. v = Str s \<longrightarrow> length s \<noteq> 11) \<longrightarrow> maskPhone v = v)"
proof (intro conjI impI)
  assume len: "length p = 11"
  then have "p \<noteq> []" by auto
  with len have "maskPhone (Str p) = Str (take 3 p @ lit ''****'' @ drop 7 p)"
    by simp
  moreover have "length (take 3 p @ lit ''****'' @ drop 7 p) = 11"
    using len by (simp add: length_lit)
  moreover have "take 3 (take 3 p @ lit ''****'' @ drop 7 p) = take 3 p"
    using len by simp
  moreover have "take 4 (drop 3 (take 3 p @ lit ''****'' @ drop 7 p)) = lit ''****''"
    using len by (simp add: length_lit)
  moreover have "drop 7 (take 3 p @ lit ''****'' @ drop 7 p) = drop 7 p"
    using len by (simp add: length_lit)
  ultimately show "\<exists>q. maskPhone (Str p) = Str q \<and> length q = 11
         \<and> take 3 q = take 3 p \<and> take 4 (drop 3 q) = lit ''****'' \<and> drop 7 q = drop 7 p"
    by blast
next
  assume other: "\<forall>s. v = Str s \<longrightarrow> length s \<noteq> 11"
  show "maskPhone v = v"
    using other by (cases v) auto
qed

theorem maskPhone_masks_middle_witness:
  "maskPhone (Str (lit ''13812345678'')) = Str (lit ''138****5678'')
   \<and> maskPhone (Str (lit ''12345'')) = Str (lit ''12345'')
   \<and> maskPhone Null = Null"
proof -
  have a: "length (lit ''13812345678'') = 11"
    by (simp add: length_lit)
  from maskPhone_masks_middle [of "lit ''13812345678''" Null] a
  obtain q where q: "maskPhone (Str (lit ''13812345678'')) = Str q"
    and "maskPhone Null = Null"
    by auto
  have b: "\<forall>s. Str (lit ''12345'') = Str s \<longrightarrow> length s \<noteq> 11"
    by (simp add: length_lit)
  from maskPhone_masks_middle [of "[]" "Str (lit ''12345'')"] b
  have c: "maskPhone (Str (lit ''12345'')) = Str (lit ''12345'')"
    by blast
  have "maskPhone (Str (lit ''13812345678'')) = Str (lit ''138****5678'')"
    by (simp add: lit_def)
  with c \<open>maskPhone Null = Null\<close> show ?thesis by simp
qed

section \<open>Properties of the string operations\<close>

lemma lit_Nil [simp]: "lit [] = []"
  by (simp add: lit_def)

lemma replace_first_prefix: "pat \<noteq> [] \<Longrightarrow> replace_first pat rep (pat @ s) = rep @ s"
  by (cases pat) auto

section \<open>Properties of the admin page script\<close>

lemma admin_script_rejected: "\<not> script_accepted"
  by (simp add: script_accepted_def admin_blocks_def)

lemma call_global_raises: "call_global name body st = Abrupt st"
  by (simp add: call_global_def admin_script_rejected)

text \<open>
  C1. The script declares \<open>remarks\<close> twice in the block of the \<open>switch\<close> of
  \<open>confirmEdit\<close> and is rejected; a call of \<open>confirmEdit\<close> therefore sends no request,
  whatever the edit-type tag and the inputs, where the claim has one request sent for
  each tag.
\<close>

theorem confirmEdit_sends_nothing:
  "requests (state_of (call_global ''confirmEdit'' body st)) = requests st"
  by (simp add: call_global_raises)

text \<open>
  C2. Since the script is rejected, a call of \<open>confirmEdit\<close> raises whatever the server
  would answer: no toast is shown, the modal stays as it is and no list reload is asked
  for, where the claim has a success toast, the modal closed and a reload on a
  successful response.
\<close>

theorem confirmEdit_no_outcome:
  "call_global ''confirmEdit'' body st = Abrupt st
   \<and> toasts (state_of (call_global ''confirmEdit'' body st)) = toasts st
   \<and> modalShown (state_of (call_global ''confirmEdit'' body st)) = modalShown st
   \<and> reloads (state_of (call_global ''confirmEdit'' body st)) = reloads st"
  by (simp add: call_global_raises)

text \<open>
  C3. On the page that shows the borrow form with a blank borrower, a call of
  \<open>confirmEdit\<close> raises and shows no toast, where the claim has a toast shown and the
  call returning.
\<close>

theorem confirmEdit_blank_borrower_no_toast:
  "call_global ''confirmEdit'' body borrow_form_page = Abrupt borrow_form_page
   \<and> toasts (state_of (call_global ''confirmEdit'' body borrow_form_page)) = []"
  by (simp add: call_global_raises borrow_form_page_def)

text \<open>
  C9. Since the script is rejected, none of the five modal-opening functions exists: a
  call of any of them raises and leaves the page as it was, the modal not shown, where
  the claim has the session overwritten and the modal opened.
\<close>

theorem show_modal_calls_raise:
  "call_global ''showBorrowModal'' body closed_page = Abrupt closed_page
   \<and> call_global ''showReturnModal'' body closed_page = Abrupt closed_page
   \<and> call_global ''showTransferModal'' body closed_page = Abrupt closed_page
   \<and> call_global ''showEditModal'' body closed_page = Abrupt closed_page
   \<and> call_global ''showEditFieldModal'' body closed_page = Abrupt closed_page
   \<and> \<not> modalShown closed_page"
  by (simp add: call_global_raises closed_page_def)

text \<open>
  C10. Since the script is rejected, a call of \<open>confirmEdit\<close> with no editing session
  does not return: it raises a ReferenceError, where the claim has it return at once.
\<close>

theorem confirmEdit_call_raises:
  "call_global ''confirmEdit'' body closed_page = Abrupt closed_page"
  by (simp add: call_global_raises)

section \<open>Properties of the storage wrapper\<close>





section \<open>Properties of validateForm\<close>

lemma check_rules_pass:
  "check_rules P v rs = Some None \<longleftrightarrow> (\<forall>r\<in>set rs. eval_rule P r v = Some (Bool True))"
  by (induction rs) (auto split: option.splits)

lemma check_rules_fail:
  "check_rules P v rs = Some (Some e) \<longleftrightarrow>
     (\<exists>pre r post. rs = pre @ r # post \<and> (\<forall>p\<in>set pre. eval_rule P p v = Some (Bool True))
        \<and> eval_rule P r v = Some e \<and> e \<noteq> Bool True)"
proof (induction rs)
  case Nil
  then show ?case by simp
next
  case (Cons a rs)
  show ?case
  proof (cases "eval_rule P a v")
    case None
    have "\<not> (\<exists>pre r post. a # rs = pre @ r # post \<and> (\<forall>p\<in>set pre. eval_rule P p v = Some (Bool True))
        \<and> eval_rule P r v = Some e \<and> e \<noteq> Bool True)"
    proof
      assume "\<exists>pre r post. a # rs = pre @ r # post \<and> (\<forall>p\<in>set pre. eval_rule P p v = Some (Bool True))
        \<and> eval_rule P r v = Some e \<and> e \<noteq> Bool True"
      then obtain pre r post where *: "a # rs = pre @ r # post"
        "\<forall>p\<in>set pre. eval_rule P p v = Some (Bool True)" "eval_rule P r v = Some e"
        by blast
      then show False using None by (cases pre) auto
    qed
    with None show ?thesis by simp
  next
    case (Some res)
    show ?thesis
    proof (cases "res = Bool True")
      case True
      have "(\<exists>pre r post. a # rs = pre @ r # post \<and> (\<forall>p\<in>set pre. eval_rule P p v = Some (Bool True))
        \<and> eval_rule P r v = Some e \<and> e \<noteq> Bool True)
        \<longleftrightarrow> (\<exists>pre r post. rs = pre @ r # post \<and> (\<forall>p\<in>set pre. eval_rule P p v = Some (Bool True))
        \<and> eval_rule P r v = Some e \<and> e \<noteq> Bool True)" (is "?L \<longleftrightarrow> ?R")
      proof
        assume ?L
        then obtain pre r post where *: "a # rs = pre @ r # post"
          "\<forall>p\<in>set pre. eval_rule P p v = Some (Bool True)" "eval_rule P r v = Some e" "e \<noteq> Bool True"
          by blast
        with Some True obtain pre' where "pre = a # pre'"
          by (cases pre) auto
        with * show ?R by auto
      next
        assume ?R
        then obtain pre r post where *: "rs = pre @ r # post"
          "\<forall>p\<in>set pre. eval_rule P p v = Some (Bool True)" "eval_rule P r v = Some e" "e \<noteq> Bool True"
          by blast
        then have "a # rs = (a # pre) @ r # post" "\<forall>p\<in>set (a # pre). eval_rule P p v = Some (Bool True)"
          using Some True by auto
        with * show ?L by blast
      qed
      with Some True Cons.IH show ?thesis by simp
    next
      case False
      have "(\<exists>pre r post. a # rs = pre @ r # post \<and> (\<forall>p\<in>set pre. eval_rule P p v = Some (Bool True))
        \<and> eval_rule P r v = Some e \<and> e \<noteq> Bool True) \<longleftrightarrow> res = e" (is "?L \<longleftrightarrow> _")
      proof
        assume ?L
        then obtain pre r post where *: "a # rs = pre @ r # post"
          "\<forall>p\<in>set pre. eval_rule P p v = Some (Bool True)" "eval_rule P r v = Some e" "e \<noteq> Bool True"
          by blast
        show "res = e"
        proof (cases pre)
          case Nil
          with * Some show ?thesis by simp
        next
          case (Cons x xs)
          with * Some False show ?thesis by auto
        qed
      next
        assume "res = e"
        then have "a # rs = [] @ a # rs" "eval_rule P a v = Some e" "e \<noteq> Bool True"
          using Some False by auto
        then show ?L by (metis empty_iff empty_set)
      qed
      with Some False show ?thesis by auto
    qed
  qed
qed

lemma check_rules_raise:
  "check_rules P v rs = None \<longleftrightarrow>
     (\<exists>pre r post. rs = pre @ r # post \<and> (\<forall>p\<in>set pre. eval_rule P p v = Some (Bool True))
        \<and> eval_rule P r v = None)"
proof (induction rs)
  case Nil
  then show ?case by simp
next
  case (Cons a rs)
  show ?case
  proof (cases "eval_rule P a v")
    case None
    then have "a # rs = [] @ a # rs \<and> (\<forall>p\<in>set []. eval_rule P p v = Some (Bool True))
        \<and> eval_rule P a v = None"
      by simp
    then have "\<exists>pre r post. a # rs = pre @ r # post \<and> (\<forall>p\<in>set pre. eval_rule P p v = Some (Bool True))
        \<and> eval_rule P r v = None"
      by blast
    with None show ?thesis by simp
  next
    case (Some res)
    show ?thesis
    proof (cases "res = Bool True")
      case True
      have "(\<exists>pre r post. a # rs = pre @ r # post \<and> (\<forall>p\<in>set pre. eval_rule P p v = Some (Bool True))
        \<and> eval_rule P r v = None)
        \<longleftrightarrow> (\<exists>pre r post. rs = pre @ r # post \<and> (\<forall>p\<in>set pre. eval_rule P p v = Some (Bool True))
        \<and> eval_rule P r v = None)" (is "?L \<longleftrightarrow> ?R")
      proof
        assume ?L
        then obtain pre r post where *: "a # rs = pre @ r # post"
          "\<forall>p\<in>set pre. eval_rule P p v = Some (Bool True)" "eval_rule P r v = None"
          by blast
        with Some obtain pre' where "pre = a # pre'"
          by (cases pre) auto
        with * show ?R by auto
      next
        assume ?R
        then obtain pre r post where *: "rs = pre @ r # post"
          "\<forall>p\<in>set pre. eval_rule P p v = Some (Bool True)" "eval_rule P r v = None"
          by blast
        then have "a # rs = (a # pre) @ r # post" "\<forall>p\<in>set (a # pre). eval_rule P p v = Some (Bool True)"
          using Some True by auto
        with * show ?L by blast
      qed
      with Some True Cons.IH show ?thesis by simp
    next
      case False
      have "\<not> (\<exists>pre r post. a # rs = pre @ r # post \<and> (\<forall>p\<in>set pre. eval_rule P p v = Some (Bool True))
        \<and> eval_rule P r v = None)"
      proof
        assume "\<exists>pre r post. a # rs = pre @ r # post \<and> (\<forall>p\<in>set pre. eval_rule P p v = Some (Bool True))
        \<and> eval_rule P r v = None"
        then obtain pre r post where *: "a # rs = pre @ r # post"
          "\<forall>p\<in>set pre. eval_rule P p v = Some (Bool True)" "eval_rule P r v = None"
          by blast
        then show False using Some False by (cases pre) auto
      qed
      with Some False show ?thesis by simp
    qed
  qed
qed

lemma validate_fields_map:
  "validate_fields P fd rules acc = Some errs \<Longrightarrow> distinct (map fst rules) \<Longrightarrow>
   map_of errs f =
     (case map_of rules f of
        None \<Rightarrow> map_of acc f
      | Some frs \<Rightarrow>
          (case check_rules P (field_value P fd f) frs of
             Some (Some e) \<Rightarrow> if f = lit ''__proto__'' then map_of acc f else Some e
           | _ \<Rightarrow> map_of acc f))"
proof (induction P fd rules acc rule: validate_fields.induct)
  case (1 P formData errs)
  then show ?case by simp
next
  case (2 P formData field fieldRules rest errors)
  from "2.prems" have d: "distinct (map fst rest)" and nf: "map_of rest field = None"
    by (auto simp add: map_of_eq_None_iff)
  show ?case
  proof (cases "check_rules P (field_value P formData field) fieldRules")
    case None
    with "2.prems" show ?thesis by simp
  next
    case (Some r)
    show ?thesis
    proof (cases r)
      case None
      with Some "2.prems" have "validate_fields P formData rest errors = Some errs" by simp
      from "2.IH"(1) [OF Some None this d] Some None nf show ?thesis
        by (auto split: option.splits)
    next
      case (Some e)
      with \<open>check_rules P (field_value P formData field) fieldRules = Some r\<close> "2.prems"
      have "validate_fields P formData rest (record_error field e errors) = Some errs" by simp
      from "2.IH"(2) [OF \<open>check_rules P (field_value P formData field) fieldRules = Some r\<close> Some this d]
        \<open>check_rules P (field_value P formData field) fieldRules = Some r\<close> Some nf
      show ?thesis
        by (auto simp add: record_error_def update_conv' split: option.splits)
    qed
  qed
qed

lemma validate_fields_raise:
  "validate_fields P fd rules acc = None \<longleftrightarrow>
     (\<exists>(f, frs)\<in>set rules. check_rules P (field_value P fd f) frs = None)"
  by (induction P fd rules acc rule: validate_fields.induct) (auto split: option.splits)

lemma validateForm_errors:
  assumes res: "validateForm P fd rules = Some res" and d: "distinct (map fst rules)"
  shows "map_of (errors res) f =
     (case map_of rules f of
        None \<Rightarrow> None
      | Some frs \<Rightarrow>
          (case check_rules P (field_value P fd f) frs of
             Some (Some e) \<Rightarrow> if f = lit ''__proto__'' then None else Some e
           | _ \<Rightarrow> None))"
proof -
  from res obtain errs where e: "validate_fields P fd rules [] = Some errs" "errors res = errs"
    by (auto simp add: validateForm_def split: option.splits)
  from validate_fields_map [OF e(1) d, of f] e(2) show ?thesis
    by (simp split: option.splits)
qed

lemma trim_Li_plain: "trim (lit ''Li'') = lit ''Li''"
  by (simp add: trim_def js_space_def lit_def)

lemma trim_12345: "trim (lit ''12345'') = lit ''12345''"
  by (simp add: trim_def js_space_def lit_def)

lemma browser_no_name: "inherited browser (lit ''name'') = None"
  by (simp add: browser_def lit_eq_iff)

lemma browser_constructor: "inherited browser (lit ''constructor'') = Some (Some 1)"
  by (simp add: browser_def)

lemma browser_proto: "inherited browser (lit ''__proto__'') = Some None"
  by (simp add: browser_def lit_eq_iff)

lemma sample_name_value: "field_value browser sample_form (lit ''name'') = Own (Str (lit ''Li''))"
  by (simp add: field_value_def sample_form_def)

lemma sample_phone_value: "field_value browser sample_form (lit ''phone'') = Own (Str (lit ''12345''))"
  by (simp add: field_value_def sample_form_def lit_eq_iff)

lemma sample_name_check:
  "check_rules browser (Own (Str (lit ''Li''))) [Rule_msg (lit ''name required''), Rule_minLength 2 None]
     = Some None"
  by (simp add: validators_required_def validators_minLength_def trim_Li_plain lit_eq_Nil length_lit)

lemma sample_phone_check:
  "check_rules browser (Own (Str (lit ''12345'')))
     [Rule_required None, Rule_phone (Some (lit ''bad phone'')), Rule_unknown]
     = Some (Some (Str (lit ''bad phone'')))"
proof -
  have "\<not> phoneRegex (lit ''12345'')"
    by (simp add: lit_def)
  then show ?thesis
    by (simp add: validators_required_def validators_phone_def trim_12345 lit_eq_Nil)
qed

lemma sample_validation:
  "validateForm browser sample_form sample_rules =
     Some \<lparr>isValid = False, errors = [(lit ''phone'', Str (lit ''bad phone''))]\<rparr>"
  unfolding validateForm_def sample_rules_def
  by (simp add: sample_name_value sample_phone_value sample_name_check sample_phone_check
        record_error_def lit_eq_iff del: check_rules.simps)

text \<open>
  A form without the field \<open>constructor\<close> still has a value there, the inherited
  function: \<open>required\<close> finds it truthy and raises at \<open>value.trim\<close>, while \<open>minLength\<close>
  compares the number of parameters of the function.
\<close>

lemma inherited_value_required:
  "validateForm browser [] [(lit ''constructor'', [Rule_required None])] = None"
  by (simp add: validateForm_def field_value_def browser_constructor validators_required_def)

lemma inherited_value_minLength:
  "validateForm browser [] [(lit ''constructor'', [Rule_minLength 2 (Some (lit ''short''))])]
     = Some \<lparr>isValid = False, errors = [(lit ''constructor'', Str (lit ''short''))]\<rparr>"
  by (simp add: validateForm_def field_value_def browser_constructor validators_minLength_def
        record_error_def lit_eq_iff lit_eq_Nil)

text \<open>
  A failing rule of the field \<open>__proto__\<close> leaves no entry in \<open>errors\<close>, and the form
  counts as valid.
\<close>

lemma proto_field_unrecorded:
  "validateForm browser [] [(lit ''__proto__'', [Rule_phone None])]
     = Some \<lparr>isValid = True, errors = []\<rparr>"
  by (simp add: validateForm_def field_value_def browser_proto validators_phone_def
        record_error_def)

text \<open>
  C4, as the code has it, on every platform, for forms with primitive values and the
  rules of type \<open>rule\<close>, their field names distinct. \<open>validateForm\<close> raises exactly when
  some field reaches a rule that raises, every rule before it having given \<open>true\<close>.
  Otherwise it returns \<open>{isValid, errors}\<close> where, for each field of the rules other than
  \<open>__proto__\<close>, \<open>errors\<close> has no entry exactly when every rule of the field gives
  \<open>true\<close>, and has the entry \<open>e\<close> exactly when \<open>e\<close> is the result of the first rule
  whose result is not \<open>true\<close> (the rules after it are not looked at); \<open>errors\<close> has no
  entry for \<open>__proto__\<close> and no entry for a name that is not a field of the rules, and
  \<open>isValid\<close> holds exactly when \<open>errors\<close> has no entry.
\<close>

theorem validateForm_first_failure:
  assumes d: "distinct (map fst rules)"
  shows "(validateForm P fd rules = None \<longleftrightarrow>
            (\<exists>(f, frs)\<in>set rules. \<exists>pre r post. frs = pre @ r # post
                \<and> (\<forall>p\<in>set pre. eval_rule P p (field_value P fd f) = Some (Bool True))
                \<and> eval_rule P r (field_value P fd f) = None))
       \<and> (\<forall>res. validateForm P fd rules = Some res \<longrightarrow>
            (\<forall>(f, frs)\<in>set rules. f \<noteq> lit ''__proto__'' \<longrightarrow>
                (map_of (errors res) f = None \<longleftrightarrow>
                   (\<forall>r\<in>set frs. eval_rule P r (field_value P fd f) = Some (Bool True)))
              \<and> (\<forall>e. map_of (errors res) f = Some e \<longleftrightarrow>
                   (\<exists>pre r post. frs = pre @ r # post
                      \<and> (\<forall>p\<in>set pre. eval_rule P p (field_value P fd f) = Some (Bool True))
                      \<and> eval_rule P r (field_value P fd f) = Some e \<and> e \<noteq> Bool True)))
            \<and> map_of (errors res) (lit ''__proto__'') = None
            \<and> (\<forall>f. f \<notin> fst ` set rules \<longrightarrow> map_of (errors res) f = None)
            \<and> (isValid res \<longleftrightarrow> (\<forall>f. map_of (errors res) f = None)))"
proof (intro conjI allI impI)
  show "validateForm P fd rules = None \<longleftrightarrow>
            (\<exists>(f, frs)\<in>set rules. \<exists>pre r post. frs = pre @ r # post
                \<and> (\<forall>p\<in>set pre. eval_rule P p (field_value P fd f) = Some (Bool True))
                \<and> eval_rule P r (field_value P fd f) = None)"
  proof -
    have "validateForm P fd rules = None \<longleftrightarrow> validate_fields P fd rules [] = None"
      by (simp add: validateForm_def split: option.splits)
    then show ?thesis
      by (simp add: validate_fields_raise check_rules_raise)
  qed
next
  fix res
  assume res: "validateForm P fd rules = Some res"
  note errs = validateForm_errors [OF res d]
  have noraise: "check_rules P (field_value P fd f) frs \<noteq> None" if "(f, frs) \<in> set rules" for f frs
  proof -
    from res have "validate_fields P fd rules [] \<noteq> None"
      by (auto simp add: validateForm_def split: option.splits)
    with that show ?thesis
      by (auto simp add: validate_fields_raise)
  qed
  show "\<forall>(f, frs)\<in>set rules. f \<noteq> lit ''__proto__'' \<longrightarrow>
                (map_of (errors res) f = None \<longleftrightarrow>
                   (\<forall>r\<in>set frs. eval_rule P r (field_value P fd f) = Some (Bool True)))
              \<and> (\<forall>e. map_of (errors res) f = Some e \<longleftrightarrow>
                   (\<exists>pre r post. frs = pre @ r # post
                      \<and> (\<forall>p\<in>set pre. eval_rule P p (field_value P fd f) = Some (Bool True))
                      \<and> eval_rule P r (field_value P fd f) = Some e \<and> e \<noteq> Bool True))"
  proof (intro ballI, clarify)
    fix f frs
    assume mem: "(f, frs) \<in> set rules" and np: "f \<noteq> lit ''__proto__''"
    with d have m: "map_of rules f = Some frs"
      by simp
    from noraise [OF mem] obtain c where c: "check_rules P (field_value P fd f) frs = Some c"
      by auto
    have a: "map_of (errors res) f = None \<longleftrightarrow>
                   (\<forall>r\<in>set frs. eval_rule P r (field_value P fd f) = Some (Bool True))"
      using errs [of f] m c np check_rules_pass [of P "field_value P fd f" frs]
      by (cases c) auto
    have b: "map_of (errors res) f = Some e \<longleftrightarrow>
                   (\<exists>pre r post. frs = pre @ r # post
                      \<and> (\<forall>p\<in>set pre. eval_rule P p (field_value P fd f) = Some (Bool True))
                      \<and> eval_rule P r (field_value P fd f) = Some e \<and> e \<noteq> Bool True)" for e
      using errs [of f] m c np check_rules_fail [of P "field_value P fd f" frs e]
      by (cases c) auto
    from a b show "(map_of (errors res) f = None \<longleftrightarrow>
                   (\<forall>r\<in>set frs. eval_rule P r (field_value P fd f) = Some (Bool True)))
              \<and> (\<forall>e. map_of (errors res) f = Some e \<longleftrightarrow>
                   (\<exists>pre r post. frs = pre @ r # post
                      \<and> (\<forall>p\<in>set pre. eval_rule P p (field_value P fd f) = Some (Bool True))
                      \<and> eval_rule P r (field_value P fd f) = Some e \<and> e \<noteq> Bool True))"
      by blast
  qed
  show "map_of (errors res) (lit ''__proto__'') = None"
    using errs [of "lit ''__proto__''"] by (simp split: option.splits)
  show "map_of (errors res) f = None" if "f \<notin> fst ` set rules" for f
  proof -
    from that have "map_of rules f = None"
      by (simp add: map_of_eq_None_iff)
    with errs [of f] show ?thesis by simp
  qed
  show "isValid res \<longleftrightarrow> (\<forall>f. map_of (errors res) f = None)"
  proof -
    from res have "isValid res \<longleftrightarrow> errors res = []"
      by (auto simp add: validateForm_def split: option.splits)
    also have "\<dots> \<longleftrightarrow> map_of (errors res) = Map.empty"
      by simp
    also have "\<dots> \<longleftrightarrow> (\<forall>f. map_of (errors res) f = None)"
      by (simp add: fun_eq_iff)
    finally show ?thesis .
  qed
qed

theorem validateForm_first_failure_witness:
  "distinct (map fst sample_rules)
   \<and> validateForm browser sample_form sample_rules =
       Some \<lparr>isValid = False, errors = [(lit ''phone'', Str (lit ''bad phone''))]\<rparr>
   \<and> lit ''name'' \<noteq> lit ''__proto__''
   \<and> eval_rule browser (Rule_msg (lit ''name required'')) (field_value browser sample_form (lit ''name''))
       = Some (Bool True)
   \<and> eval_rule browser (Rule_minLength 2 None) (field_value browser sample_form (lit ''name''))
       = Some (Bool True)"
proof -
  have d: "distinct (map fst sample_rules)"
    by (simp add: sample_rules_def lit_eq_iff)
  have mem: "(lit ''name'', [Rule_msg (lit ''name required''), Rule_minLength 2 None]) \<in> set sample_rules"
    by (simp add: sample_rules_def)
  have np: "lit ''name'' \<noteq> lit ''__proto__''"
    by (simp add: lit_eq_iff)
  have none: "map_of (errors \<lparr>isValid = False, errors = [(lit ''phone'', Str (lit ''bad phone''))]\<rparr>)
                (lit ''name'') = None"
    by (simp add: lit_eq_iff)
  note field = validateForm_first_failure [OF d, of browser sample_form, THEN conjunct2, THEN spec,
                 THEN mp, OF sample_validation, THEN conjunct1, THEN bspec, OF mem]
  from field np none
  have "eval_rule browser (Rule_msg (lit ''name required'')) (field_value browser sample_form (lit ''name''))
          = Some (Bool True)
        \<and> eval_rule browser (Rule_minLength 2 None) (field_value browser sample_form (lit ''name''))
          = Some (Bool True)"
    by (simp del: eval_rule.simps)
  with d np sample_validation show ?thesis
    by (simp del: eval_rule.simps)
qed

text \<open>
  C4, as the claim states it, fails on a form without the field and a \<open>minLength\<close>
  rule: \<open>value.length\<close> raises on \<open>undefined\<close> and \<open>validateForm\<close> returns nothing.
\<close>

theorem validateForm_raises:
  "validateForm browser [] [(lit ''name'', [Rule_minLength 2 None])] = None"
  by (simp add: validateForm_def field_value_def browser_no_name validators_minLength_def)

section \<open>Properties of debounce and throttle\<close>







lemma throttle_run_snoc:
  "throttle_run stack func limit (es @ [e])
     = throttle_step stack func limit (throttle_run stack func limit es) e"
  by (simp add: throttle_run_def)









text \<open>
  A wrapped function that calls the wrapper is called by \<open>throttle\<close> again and again
  within one call, until the stack is used up; \<open>debounce\<close> sets a new timer for it.
\<close>

lemma throttle_reentrant:
  "t_invoked (throttle_run 3 echo_func 100 [Call 0 ''a'']) = [(0, ''a''), (0, ''a''), (0, ''a'')]
   \<and> \<not> inThrottle (throttle_run 3 echo_func 100 [Call 0 ''a''])"
  by (simp add: throttle_run_def throttle_def echo_func_def numeral_3_eq_3)

lemma debounce_reentrant:
  "d_invoked (debounce_run echo_func 100 [Call 0 ''a'', Turn 100, Turn 150, Turn 200])
     = [(100, ''a''), (200, ''a'')]"
  by (simp add: debounce_run_def debounce_def executedFunction_def later_def
        echo_func_def clearTimeout_def remove_timer_def setTimeout_def due_timer_def)




section \<open>Properties of formatDate\<close>

lemma replace_first_absent:
  "tok \<noteq> [] \<Longrightarrow> occurrences tok s = 0 \<Longrightarrow> replace_first tok rep s = s"
  by (induction s) (auto split: if_splits)

lemma replace_first_skip:
  "0 < n \<Longrightarrow> l \<notin> set u \<Longrightarrow>
   replace_first (replicate n l) rep (u @ s) = u @ replace_first (replicate n l) rep s"
proof (induction u)
  case Nil
  then show ?case by simp
next
  case (Cons c u)
  then have "\<not> prefix (replicate n l) (c # u @ s)"
    by (cases n) auto
  with Cons show ?case by simp
qed

lemma block_prefix_within:
  assumes "prefix (replicate n l) (u @ r @ y)" and "r \<noteq> []" and "l \<notin> set r"
  shows "n \<le> length u"
proof (rule ccontr)
  assume "\<not> n \<le> length u"
  then have lt: "length u < n" by simp
  from assms(1) obtain zs where eq: "u @ r @ y = replicate n l @ zs"
    by (auto simp add: prefix_def)
  have "(u @ r @ y) ! length u = hd r"
    using assms(2) by (cases r) (auto simp add: nth_append)
  moreover have "(replicate n l @ zs) ! length u = l"
    using lt by (simp add: nth_append)
  ultimately have "hd r = l" using eq by simp
  with assms(2,3) show False by (cases r) auto
qed

lemma block_prefix_change:
  assumes "prefix (replicate n l) (u @ a)" and "n \<le> length u"
  shows "prefix (replicate n l) (u @ b)"
proof -
  from assms have "prefix (replicate n l) u"
    by (metis length_replicate prefix_length_prefix prefix_append prefix_order.order_refl
          prefixI)
  then show ?thesis by (simp add: prefix_prefix)
qed

lemma replace_first_no_new_prefix:
  assumes "pat \<noteq> []" and "rep \<noteq> []" and "l \<notin> set rep"
  shows "prefix (replicate n l) (u @ replace_first pat rep x) \<Longrightarrow> prefix (replicate n l) (u @ x)"
proof (induction x arbitrary: u)
  case Nil
  with assms(1) show ?case by simp
next
  case (Cons c x)
  show ?case
  proof (cases "prefix pat (c # x)")
    case True
    with Cons.prems have p: "prefix (replicate n l) (u @ rep @ drop (length pat) (c # x))"
      by simp
    from block_prefix_within [OF p assms(2,3)] have "n \<le> length u" .
    with p show ?thesis by (rule block_prefix_change)
  next
    case False
    with Cons.prems have "prefix (replicate n l) ((u @ [c]) @ replace_first pat rep x)"
      by simp
    from Cons.IH [OF this] show ?thesis by simp
  qed
qed

lemma occurrences_drop: "occurrences tok (drop k s) \<le> occurrences tok s"
proof (induction s arbitrary: k)
  case Nil
  then show ?case by simp
next
  case (Cons c s)
  show ?case
  proof (cases k)
    case 0
    then show ?thesis by simp
  next
    case (Suc j)
    with Cons [of j] show ?thesis by simp
  qed
qed

lemma occurrences_skip:
  "0 < n \<Longrightarrow> l \<notin> set u \<Longrightarrow> occurrences (replicate n l) (u @ s) = occurrences (replicate n l) s"
proof (induction u)
  case Nil
  then show ?case by simp
next
  case (Cons c u)
  then have "\<not> prefix (replicate n l) (c # u @ s)"
    by (cases n) auto
  with Cons show ?case by simp
qed

lemma replace_first_no_new_occurrence:
  assumes "pat \<noteq> []" and "rep \<noteq> []" and "l \<notin> set rep" and "0 < n"
  shows "occurrences (replicate n l) x = 0
         \<Longrightarrow> occurrences (replicate n l) (replace_first pat rep x) = 0"
proof (induction x)
  case Nil
  with assms(1) show ?case by simp
next
  case (Cons c x)
  from Cons.prems have np: "\<not> prefix (replicate n l) (c # x)" and z: "occurrences (replicate n l) x = 0"
    by (auto split: if_splits)
  show ?case
  proof (cases "prefix pat (c # x)")
    case True
    have "occurrences (replicate n l) (drop (length pat) (c # x)) = 0"
      using occurrences_drop [of "replicate n l" "length pat" "c # x"] Cons.prems by simp
    with True assms show ?thesis
      by (simp add: occurrences_skip del: occurrences.simps)
  next
    case False
    have "\<not> prefix (replicate n l) (c # replace_first pat rep x)"
      using replace_first_no_new_prefix [OF assms(1,2,3), of n "[c]" x] np by auto
    with False Cons.IH [OF z] show ?thesis by simp
  qed
qed

lemma replace_each_skip:
  "list_all (\<lambda>(l, n, rep). 0 < n \<and> l \<notin> set u) ts
   \<Longrightarrow> replace_each ts (u @ s) = u @ replace_each ts s"
  by (induction ts s rule: replace_each.induct) (auto simp add: replace_first_skip)

lemma replace_each_head:
  "list_all (\<lambda>(l, n, rep). 0 < n \<and> rep \<noteq> [] \<and> \<not> prefix (replicate n l) (c # s)) ts
   \<Longrightarrow> list_all (\<lambda>(l, n, rep). list_all (\<lambda>(l', n', rep'). l' \<notin> set rep) ts) ts
   \<Longrightarrow> replace_each ts (c # s) = c # replace_each ts s"
proof (induction ts arbitrary: s)
  case Nil
  then show ?case by simp
next
  case (Cons e ts)
  obtain l n rep where e: "e = (l, n, rep)" by (cases e) auto
  from Cons.prems e have h: "0 < n" "rep \<noteq> []" "\<not> prefix (replicate n l) (c # s)"
    by simp_all
  then have pat: "replicate n l \<noteq> []" by simp
  have step: "replace_each (e # ts) (c # s) = replace_each ts (c # replace_first (replicate n l) rep s)"
    using e h by simp
  have rest: "list_all (\<lambda>(l', n', rep'). 0 < n' \<and> rep' \<noteq> []
                 \<and> \<not> prefix (replicate n' l') (c # replace_first (replicate n l) rep s)) ts"
  proof -
    have "0 < n' \<and> rep' \<noteq> [] \<and> \<not> prefix (replicate n' l') (c # replace_first (replicate n l) rep s)"
      if m: "(l', n', rep') \<in> set ts" for l' n' rep'
    proof -
      from Cons.prems(1) m have a: "0 < n'" "rep' \<noteq> []" "\<not> prefix (replicate n' l') (c # s)"
        by (auto simp add: list_all_iff)
      from Cons.prems(2) e m have "l' \<notin> set rep"
        by (auto simp add: list_all_iff)
      from replace_first_no_new_prefix [OF pat h(2) this, of n' "[c]" s] a
      show ?thesis by auto
    qed
    then show ?thesis by (auto simp add: list_all_iff)
  qed
  have free: "list_all (\<lambda>(l, n, rep). list_all (\<lambda>(l', n', rep'). l' \<notin> set rep) ts) ts"
    using Cons.prems(2) by (auto simp add: list_all_iff)
  from Cons.IH [OF rest free] step e show ?case by simp
qed

lemma replace_each_token:
  assumes "distinct (map fst ts)" and "list_all (\<lambda>(l', n', rep'). 0 < n' \<and> l' \<notin> set rep) ts"
    and "(l, n, rep) \<in> set ts"
  shows "replace_each ts (replicate n l @ rest) = rep @ replace_each (remove1 (l, n, rep) ts) rest"
  using assms
proof (induction ts arbitrary: rest)
  case Nil
  then show ?case by simp
next
  case (Cons e ts)
  show ?case
  proof (cases "e = (l, n, rep)")
    case True
    from Cons.prems(2) True have "0 < n" and tl: "list_all (\<lambda>(l', n', rep'). 0 < n' \<and> l' \<notin> set rep) ts"
      by simp_all
    then have "replace_first (replicate n l) rep (replicate n l @ rest) = rep @ rest"
      by (simp add: replace_first_prefix)
    with True replace_each_skip [OF tl, of rest] show ?thesis by simp
  next
    case False
    obtain l' n' rep' where e: "e = (l', n', rep')" by (cases e) auto
    from False Cons.prems(3) have m: "(l, n, rep) \<in> set ts" by simp
    with Cons.prems(1) e have "l' \<noteq> l" by force
    moreover from Cons.prems(2) e have "0 < n'" by simp
    ultimately have skip: "replace_first (replicate n' l') rep' (replicate n l @ rest)
                 = replicate n l @ replace_first (replicate n' l') rep' rest"
      by (simp add: replace_first_skip)
    from Cons.prems have d: "distinct (map fst ts)"
      and tl: "list_all (\<lambda>(l', n', rep'). 0 < n' \<and> l' \<notin> set rep) ts"
      by simp_all
    have rm: "remove1 (l, n, rep) (e # ts) = e # remove1 (l, n, rep) ts"
      using False by auto
    have "replace_each (e # ts) (replicate n l @ rest)
            = replace_each ts (replicate n l @ replace_first (replicate n' l') rep' rest)"
      using e skip by simp
    also have "\<dots> = rep @ replace_each (remove1 (l, n, rep) ts) (replace_first (replicate n' l') rep' rest)"
      by (rule Cons.IH [OF d tl m])
    also have "\<dots> = rep @ replace_each (e # remove1 (l, n, rep) ts) rest"
      using e by simp
    finally show ?thesis using rm by simp
  qed
qed

lemma replace_each_without:
  assumes "list_all (\<lambda>(l', n', rep'). 0 < n' \<and> rep' \<noteq> [] \<and> l \<notin> set rep') ts"
    and "(l, n, rep) \<in> set ts" and "occurrences (replicate n l) x = 0"
  shows "replace_each (remove1 (l, n, rep) ts) x = replace_each ts x"
  using assms
proof (induction ts arbitrary: x)
  case Nil
  then show ?case by simp
next
  case (Cons e ts)
  from Cons.prems(1,2) have n: "0 < n"
    by (auto simp add: list_all_iff)
  show ?case
  proof (cases "e = (l, n, rep)")
    case True
    with n Cons.prems(3) show ?thesis
      by (simp add: replace_first_absent)
  next
    case False
    obtain l' n' rep' where e: "e = (l', n', rep')" by (cases e) auto
    from False Cons.prems(2) have m: "(l, n, rep) \<in> set ts" by simp
    from Cons.prems(1) e have h: "0 < n'" "rep' \<noteq> []" "l \<notin> set rep'"
      and tl: "list_all (\<lambda>(l', n', rep'). 0 < n' \<and> rep' \<noteq> [] \<and> l \<notin> set rep') ts"
      by simp_all
    from h(1) have "replicate n' l' \<noteq> []" by simp
    from replace_first_no_new_occurrence [OF this h(2,3) n Cons.prems(3)]
    have "occurrences (replicate n l) (replace_first (replicate n' l') rep' x) = 0" .
    note ih = Cons.IH [OF tl m this]
    have rm: "remove1 (l, n, rep) (e # ts) = e # remove1 (l, n, rep) ts"
      using False by auto
    have "replace_each (e # remove1 (l, n, rep) ts) x
            = replace_each (remove1 (l, n, rep) ts) (replace_first (replicate n' l') rep' x)"
      using e by simp
    also have "\<dots> = replace_each ts (replace_first (replicate n' l') rep' x)"
      by (rule ih)
    also have "\<dots> = replace_each (e # ts) x"
      using e by simp
    finally show ?thesis using rm by simp
  qed
qed

lemma replace_each_Nil: "list_all (\<lambda>(l, n, rep). 0 < n) ts \<Longrightarrow> replace_each ts [] = []"
  by (induction ts) auto

lemma find_table_of:
  "find (\<lambda>(tok, rep). prefix tok s) (table_of ts) = Some (tok, rep)
   \<Longrightarrow> \<exists>l n. (l, n, rep) \<in> set ts \<and> tok = replicate n l \<and> prefix tok s"
  by (induction ts) (auto simp add: table_of_def split: if_splits)

lemma find_table_of_None:
  "find (\<lambda>(tok, rep). prefix tok s) (table_of ts) = None
   \<Longrightarrow> list_all (\<lambda>(l, n, rep). \<not> prefix (replicate n l) s) ts"
  by (induction ts) (auto simp add: table_of_def split: if_splits)

lemma replace_each_fill:
  assumes wf: "letter_tokens ts"
  shows "list_all (\<lambda>(l, n, rep). occurrences (replicate n l) s \<le> 1) ts
         \<Longrightarrow> replace_each ts s = fill_tokens (table_of ts) s"
proof (induction s rule: length_induct)
  case (1 s)
  from wf have d: "distinct (map fst ts)"
    and pos: "\<And>l n rep. (l, n, rep) \<in> set ts \<Longrightarrow> 0 < n \<and> rep \<noteq> []"
    and free: "\<And>l n rep l' n' rep'. (l, n, rep) \<in> set ts \<Longrightarrow> (l', n', rep') \<in> set ts \<Longrightarrow> l' \<notin> set rep"
    by (auto simp add: letter_tokens_def list_all_iff)
  show ?case
  proof (cases s)
    case Nil
    have "list_all (\<lambda>(l, n, rep). 0 < n) ts"
      using pos by (auto simp add: list_all_iff)
    with Nil show ?thesis by (simp add: replace_each_Nil)
  next
    case (Cons c cs)
    have occ_cs: "list_all (\<lambda>(l, n, rep). occurrences (replicate n l) (drop k cs) \<le> 1) ts" for k
    proof -
      have "occurrences (replicate n l) (drop k cs) \<le> 1" if "(l, n, rep) \<in> set ts" for l n rep
      proof -
        from "1.prems" that Cons have "occurrences (replicate n l) (c # cs) \<le> 1"
          by (auto simp add: list_all_iff)
        moreover have "occurrences (replicate n l) (drop k cs) \<le> occurrences (replicate n l) (c # cs)"
          using occurrences_drop [of "replicate n l" "Suc k" "c # cs"] by simp
        ultimately show ?thesis by simp
      qed
      then show ?thesis by (auto simp add: list_all_iff)
    qed
    show ?thesis
    proof (cases "find (\<lambda>(tok, rep). prefix tok (c # cs)) (table_of ts)")
      case None
      from find_table_of_None [OF None] pos
      have a: "list_all (\<lambda>(l, n, rep). 0 < n \<and> rep \<noteq> [] \<and> \<not> prefix (replicate n l) (c # cs)) ts"
        by (auto simp add: list_all_iff)
      have b: "list_all (\<lambda>(l, n, rep). list_all (\<lambda>(l', n', rep'). l' \<notin> set rep) ts) ts"
        using free by (auto simp add: list_all_iff)
      have "replace_each ts cs = fill_tokens (table_of ts) cs"
        using "1.IH" Cons occ_cs [of 0] by simp
      with replace_each_head [OF a b] None Cons show ?thesis by simp
    next
      case (Some tr)
      obtain tok rep where tr: "tr = (tok, rep)" by (cases tr) auto
      from find_table_of [of "c # cs" ts tok rep] Some tr
      obtain l n where m: "(l, n, rep) \<in> set ts" and tok: "tok = replicate n l"
        and pre: "prefix tok (c # cs)"
        by auto
      from pos [OF m] have n: "0 < n" by simp
      from pre tok have split: "c # cs = replicate n l @ drop n (c # cs)"
        by (metis append_eq_conv_conj length_replicate prefixE)
      have dn: "drop n (c # cs) = drop (n - 1) cs"
        using n by (cases n) auto
      have once: "occurrences (replicate n l) (c # cs) \<le> 1"
        using "1.prems" m Cons by (auto simp add: list_all_iff)
      with pre tok have "occurrences (replicate n l) cs = 0"
        by simp
      with occurrences_drop [of "replicate n l" "n - 1" cs]
      have none: "occurrences (replicate n l) (drop (n - 1) cs) = 0"
        by simp
      have s1: "list_all (\<lambda>(l', n', rep'). 0 < n' \<and> l' \<notin> set rep) ts"
        using pos free [OF m] by (auto simp add: list_all_iff)
      have s2: "list_all (\<lambda>(l', n', rep'). 0 < n' \<and> rep' \<noteq> [] \<and> l \<notin> set rep') ts"
        using pos free [OF _ m] by (auto simp add: list_all_iff)
      have "replace_each ts (c # cs) = rep @ replace_each (remove1 (l, n, rep) ts) (drop (n - 1) cs)"
        using replace_each_token [OF d s1 m, of "drop n (c # cs)"] split dn by simp
      also have "\<dots> = rep @ replace_each ts (drop (n - 1) cs)"
        using replace_each_without [OF s2 m none] by simp
      also have "replace_each ts (drop (n - 1) cs) = fill_tokens (table_of ts) (drop (n - 1) cs)"
        using "1.IH" Cons occ_cs [of "n - 1"] by simp
      finally show ?thesis
        using Some tr tok Cons by simp
    qed
  qed
qed

lemma dec_digits: "x \<in> set (dec n) \<Longrightarrow> 48 \<le> x \<and> x \<le> 57"
proof (induction n rule: dec.induct)
  case (1 n)
  show ?case
  proof (cases "n < 10")
    case True
    with "1.prems" show ?thesis by (simp add: dec.simps [of n])
  next
    case False
    with "1.prems" "1.IH" show ?thesis
      by (auto simp add: dec.simps [of n])
  qed
qed

lemma dec_not_Nil: "dec n \<noteq> []"
  by (simp add: dec.simps [of n])

lemma padStart2_digits: "x \<in> set (padStart2 n) \<Longrightarrow> 48 \<le> x \<and> x \<le> 57"
  using dec_digits by (auto simp add: padStart2_def)

lemma padStart2_not_Nil: "padStart2 n \<noteq> []"
  by (simp add: padStart2_def dec_not_Nil)

lemma show_int_chars: "x \<in> set (show_int i) \<Longrightarrow> x \<le> 57"
  using dec_digits by (auto simp add: show_int_def split: if_splits)

lemma show_int_not_Nil: "show_int i \<noteq> []"
  by (simp add: show_int_def dec_not_Nil)

lemma letter_tokens_date: "letter_tokens (date_letters d)"
proof -
  have a: "l \<notin> set (padStart2 n)" if "57 < l" for l n
    using padStart2_digits [of l n] that by auto
  have b: "l \<notin> set (show_int i)" if "57 < l" for l i
    using show_int_chars [of l i] that by auto
  show ?thesis
    by (simp add: letter_tokens_def date_letters_def a b padStart2_not_Nil show_int_not_Nil)
qed

lemma token_table_letters: "table_of (date_letters d) = token_table d"
  by (simp add: table_of_def date_letters_def token_table_def lit_def numeral_eq_Suc)

lemma formatDate_replace_each:
  "formatDate d (Some fmt) = replace_each (date_letters d) fmt"
  by (simp add: formatDate_def date_letters_def lit_def numeral_eq_Suc)

lemma padStart2_two_digits: "n < 100 \<Longrightarrow> padStart2 n = [48 + n div 10, 48 + n mod 10]"
proof (cases "n < 10")
  case True
  then show ?thesis by (simp add: padStart2_def dec.simps [of n])
next
  case False
  assume "n < 100"
  with False have "n div 10 < 10" by simp
  with False show ?thesis
    by (simp add: padStart2_def dec.simps [of n] dec.simps [of "n div 10"])
qed

lemma dec_length_upper: "n < 10 ^ k \<Longrightarrow> 0 < k \<Longrightarrow> length (dec n) \<le> k"
proof (induction n arbitrary: k rule: dec.induct)
  case (1 n)
  show ?case
  proof (cases "n < 10")
    case True
    with "1.prems" show ?thesis by (simp add: dec.simps [of n])
  next
    case False
    with "1.prems" obtain j where k: "k = Suc j" by (cases k) auto
    with "1.prems" False have "0 < j" by (cases j) auto
    moreover from k "1.prems" have "n div 10 < 10 ^ j"
      by (simp add: less_mult_imp_div_less mult.commute)
    ultimately have "length (dec (n div 10)) \<le> j"
      using "1.IH" False by simp
    with False k show ?thesis by (simp add: dec.simps [of n])
  qed
qed

lemma dec_length_lower: "10 ^ k \<le> n \<Longrightarrow> k < length (dec n)"
proof (induction n arbitrary: k rule: dec.induct)
  case (1 n)
  show ?case
  proof (cases "n < 10")
    case True
    have "k = 0"
    proof (rule ccontr)
      assume "k \<noteq> 0"
      then have "(10::nat) ^ 1 \<le> 10 ^ k"
        by (intro power_increasing) simp_all
      with "1.prems" True show False by simp
    qed
    with True show ?thesis by (simp add: dec.simps [of n])
  next
    case False
    show ?thesis
    proof (cases k)
      case 0
      with False show ?thesis by (simp add: dec.simps [of n])
    next
      case (Suc j)
      with "1.prems" have "10 ^ j \<le> n div 10" by simp
      with "1.IH" False have "j < length (dec (n div 10))" by simp
      with False Suc show ?thesis by (simp add: dec.simps [of n])
    qed
  qed
qed

lemma four_digit_year:
  assumes "1000 \<le> y" and "y \<le> 9999"
  shows "length (show_int y) = 4 \<and> list_all is_digit (show_int y)"
proof -
  from assms have pos: "\<not> y < 0" and lo: "10 ^ 3 \<le> nat y" and hi: "nat y < 10 ^ 4"
    by simp_all
  from dec_length_lower [OF lo] dec_length_upper [OF hi] have "length (dec (nat y)) = 4"
    by simp
  moreover have "list_all is_digit (dec (nat y))"
    using dec_digits by (auto simp add: list_all_iff is_digit_def)
  ultimately show ?thesis using pos by (simp add: show_int_def)
qed

lemma march_table:
  "token_table march_5 =
     [(lit ''YYYY'', lit ''2024''), (lit ''MM'', lit ''03''), (lit ''DD'', lit ''05''),
      (lit ''HH'', lit ''09''), (lit ''mm'', lit ''07'')]"
  by (simp add: token_table_def march_5_def show_int_def padStart2_def dec.simps lit_def)

lemma sample_format_once:
  "occurrences (lit ''YYYY'') (lit ''DD/MM/YYYY HH:mm'') \<le> 1"
  "occurrences (lit ''MM'') (lit ''DD/MM/YYYY HH:mm'') \<le> 1"
  "occurrences (lit ''DD'') (lit ''DD/MM/YYYY HH:mm'') \<le> 1"
  "occurrences (lit ''HH'') (lit ''DD/MM/YYYY HH:mm'') \<le> 1"
  "occurrences (lit ''mm'') (lit ''DD/MM/YYYY HH:mm'') \<le> 1"
  by (simp_all add: lit_def)

lemma sample_fill:
  "fill_tokens [(lit ''YYYY'', lit ''2024''), (lit ''MM'', lit ''03''), (lit ''DD'', lit ''05''),
      (lit ''HH'', lit ''09''), (lit ''mm'', lit ''07'')] (lit ''DD/MM/YYYY HH:mm'')
   = lit ''05/03/2024 09:07''"
  by (simp add: lit_def)

text \<open>
  C6, as the code has it. For a format in which each of the tokens YYYY, MM, DD, HH, mm
  starts at no more than one place, \<open>formatDate\<close> returns the format with every token
  replaced: YYYY by the year in decimal, MM by the month, DD by the day, HH by the hour
  and mm by the minute; an omitted format is \<open>YYYY-MM-DD\<close>. For a valid date the month
  (counted from 1), day, hour and minute are written with exactly two digits, a leading
  zero when below ten; the year has four digits when it lies between 1000 and 9999.
\<close>

theorem formatDate_fills_tokens:
  "(occurrences (lit ''YYYY'') fmt \<le> 1 \<and> occurrences (lit ''MM'') fmt \<le> 1
      \<and> occurrences (lit ''DD'') fmt \<le> 1 \<and> occurrences (lit ''HH'') fmt \<le> 1
      \<and> occurrences (lit ''mm'') fmt \<le> 1
      \<longrightarrow> formatDate d (Some fmt) = fill_tokens (token_table d) fmt)
   \<and> formatDate d None = formatDate d (Some (lit ''YYYY-MM-DD''))
   \<and> (valid_date d \<longrightarrow>
        padStart2 (getMonth d + 1) = [48 + (getMonth d + 1) div 10, 48 + (getMonth d + 1) mod 10]
        \<and> padStart2 (getDate d) = [48 + getDate d div 10, 48 + getDate d mod 10]
        \<and> padStart2 (getHours d) = [48 + getHours d div 10, 48 + getHours d mod 10]
        \<and> padStart2 (getMinutes d) = [48 + getMinutes d div 10, 48 + getMinutes d mod 10])
   \<and> (1000 \<le> getFullYear d \<and> getFullYear d \<le> 9999 \<longrightarrow>
        length (show_int (getFullYear d)) = 4 \<and> list_all is_digit (show_int (getFullYear d)))"
proof (intro conjI impI)
  assume once: "occurrences (lit ''YYYY'') fmt \<le> 1 \<and> occurrences (lit ''MM'') fmt \<le> 1
      \<and> occurrences (lit ''DD'') fmt \<le> 1 \<and> occurrences (lit ''HH'') fmt \<le> 1
      \<and> occurrences (lit ''mm'') fmt \<le> 1"
  then have "list_all (\<lambda>(l, n, rep). occurrences (replicate n l) fmt \<le> 1) (date_letters d)"
    by (simp add: date_letters_def lit_def numeral_eq_Suc)
  from replace_each_fill [OF letter_tokens_date this]
  show "formatDate d (Some fmt) = fill_tokens (token_table d) fmt"
    by (simp add: formatDate_replace_each token_table_letters)
next
  show "formatDate d None = formatDate d (Some (lit ''YYYY-MM-DD''))"
    by (simp add: formatDate_def)
next
  assume v: "valid_date d"
  then show "padStart2 (getMonth d + 1) = [48 + (getMonth d + 1) div 10, 48 + (getMonth d + 1) mod 10]"
    by (intro padStart2_two_digits) (simp add: valid_date_def)
  from v show "padStart2 (getDate d) = [48 + getDate d div 10, 48 + getDate d mod 10]"
    by (intro padStart2_two_digits) (simp add: valid_date_def)
  from v show "padStart2 (getHours d) = [48 + getHours d div 10, 48 + getHours d mod 10]"
    by (intro padStart2_two_digits) (simp add: valid_date_def)
  from v show "padStart2 (getMinutes d) = [48 + getMinutes d div 10, 48 + getMinutes d mod 10]"
    by (intro padStart2_two_digits) (simp add: valid_date_def)
next
  assume y: "1000 \<le> getFullYear d \<and> getFullYear d \<le> 9999"
  then show "length (show_int (getFullYear d)) = 4" "list_all is_digit (show_int (getFullYear d))"
    using four_digit_year by blast+
qed

theorem formatDate_fills_tokens_witness:
  "formatDate march_5 (Some (lit ''DD/MM/YYYY HH:mm'')) = lit ''05/03/2024 09:07''
   \<and> padStart2 (getMonth march_5 + 1) = lit ''03''
   \<and> length (show_int (getFullYear march_5)) = 4"
proof -
  have v: "valid_date march_5" and y: "1000 \<le> getFullYear march_5 \<and> getFullYear march_5 \<le> 9999"
    by (simp_all add: valid_date_def march_5_def)
  note th = formatDate_fills_tokens [of "lit ''DD/MM/YYYY HH:mm''" march_5]
  from th sample_format_once
  have "formatDate march_5 (Some (lit ''DD/MM/YYYY HH:mm'')) = lit ''05/03/2024 09:07''"
    by (simp add: march_table sample_fill del: fill_tokens.simps occurrences.simps)
  moreover from th v have "padStart2 (getMonth march_5 + 1) = lit ''03''"
    by (simp add: march_5_def lit_def)
  moreover from th y have "length (show_int (getFullYear march_5)) = 4"
    by simp
  ultimately show ?thesis by simp
qed

text \<open>
  C6, as the claim states it, fails for a valid date before the year 1000: with the
  default format, where each token occurs at most once, the year 999 is written with
  three digits.
\<close>

theorem formatDate_short_year:
  "valid_date june_999
   \<and> occurrences (lit ''YYYY'') (lit ''YYYY-MM-DD'') \<le> 1
   \<and> occurrences (lit ''MM'') (lit ''YYYY-MM-DD'') \<le> 1
   \<and> occurrences (lit ''DD'') (lit ''YYYY-MM-DD'') \<le> 1
   \<and> occurrences (lit ''HH'') (lit ''YYYY-MM-DD'') \<le> 1
   \<and> occurrences (lit ''mm'') (lit ''YYYY-MM-DD'') \<le> 1
   \<and> formatDate june_999 (Some (lit ''YYYY-MM-DD'')) = lit ''999-06-15''"
  by (simp add: valid_date_def june_999_def formatDate_def show_int_def padStart2_def dec.simps
        lit_def)

end
